theory Spec2Isabelle
  imports Main
begin

section \<open>Python strings\<close>

text \<open>
  A Python \<open>str\<close> is modelled as a \<open>string\<close> (a list of characters).
  \<open>startswith s p\<close> is \<open>s.startswith(p)\<close> and \<open>str_in p s\<close> is the substring
  test \<open>p in s\<close>.
\<close>

fun startswith :: "string \<Rightarrow> string \<Rightarrow> bool" where
  "startswith s [] = True"
| "startswith [] (p # ps) = False"
| "startswith (c # cs) (p # ps) = (c = p \<and> startswith cs ps)"

fun str_in :: "string \<Rightarrow> string \<Rightarrow> bool" where
  "str_in p [] = (p = [])"
| "str_in p (c # cs) = (startswith (c # cs) p \<or> str_in p cs)"

text \<open>
  \<open>split_sep sep n s\<close> is \<open>s.split(sep, maxsplit=n)\<close> for a one-character separator:
  at most \<open>n\<close> splits are made, from the left, and the rest of the string is the last part.
\<close>

fun split_sep :: "char \<Rightarrow> nat \<Rightarrow> string \<Rightarrow> string list" where
  "split_sep sep n [] = [[]]"
| "split_sep sep n (c # cs) =
     (if c = sep \<and> 0 < n then [] # split_sep sep (n - 1) cs
      else (case split_sep sep n cs of
              [] \<Rightarrow> [[c]]
            | p # ps \<Rightarrow> (c # p) # ps))"

text \<open>Decimal rendering of integers, as \<open>str(n)\<close> and the f-string \<open>{n}\<close> produce it.\<close>

definition digit_char :: "nat \<Rightarrow> char" where
  "digit_char d = ''0123456789'' ! d"

fun str_nat :: "nat \<Rightarrow> string" where
  "str_nat n = (if n < 10 then [digit_char n] else str_nat (n div 10) @ [digit_char (n mod 10)])"

declare str_nat.simps [simp del]

definition str_int :: "int \<Rightarrow> string" where
  "str_int i = (if i < 0 then CHR ''-'' # str_nat (nat (- i)) else str_nat (nat i))"

section \<open>The address: \<open>ip_to_url\<close>\<close>

text \<open>
  The \<open>port\<close> argument of \<open>ip_to_url\<close> is dynamically typed: its default is the empty
  string, the command line passes a string, and the function itself assigns the integer
  8266. \<open>truthy\<close> is Python's truth test (\<open>not port\<close> is its negation) and \<open>py_str\<close> is
  the text an f-string inserts.
\<close>

datatype pyval = PyStr string | PyInt int

fun truthy :: "pyval \<Rightarrow> bool" where
  "truthy (PyStr s) = (s \<noteq> [])"
| "truthy (PyInt i) = (i \<noteq> 0)"

fun py_str :: "pyval \<Rightarrow> string" where
  "py_str (PyStr s) = s"
| "py_str (PyInt i) = str_int i"

datatype py_error = ValueError | UnicodeDecodeError

text \<open>
  Lines 102 to 106 of \<open>ip_to_url\<close>: the host and the port after the branch on
  \<open>":" in ip\<close>. The tuple assignment \<open>ip, port = ip.split(":", maxsplit=2)\<close> raises
  \<open>ValueError\<close> unless the split has exactly two parts.
\<close>

definition ip_to_url_endpoint :: "string \<Rightarrow> pyval \<Rightarrow> py_error + (string \<times> pyval)" where
  "ip_to_url_endpoint ip port =
     (if str_in '':'' ip then
        (case split_sep CHR '':'' 2 ip of
           [ip', port'] \<Rightarrow> Inr (ip', PyStr port')
         | _ \<Rightarrow> Inl ValueError)
      else if \<not> truthy port then Inr (ip, PyInt 8266)
      else Inr (ip, port))"

text \<open>Line 108: \<open>url = f"ws://{ip}:{port}/"\<close>.\<close>

definition format_url :: "string \<times> pyval \<Rightarrow> string" where
  "format_url e = ''ws://'' @ fst e @ '':'' @ py_str (snd e) @ ''/''"

definition ip_to_url :: "string \<Rightarrow> pyval \<Rightarrow> py_error + string" where
  "ip_to_url ip port =
     (case ip_to_url_endpoint ip port of
        Inl err \<Rightarrow> Inl err
      | Inr e \<Rightarrow> Inr (format_url e))"

section \<open>The terminal surface and the effects of a run\<close>

text \<open>
  The text of the \<open>term\<close> element changes while the program runs. A surface is the sequence
  of texts that the successive evaluations of \<open>element.text\<close> obtain: evaluating it takes the
  head of the sequence and leaves the rest.
\<close>

type_synonym surface = "nat \<Rightarrow> string"

definition element_text :: "surface \<Rightarrow> string" where
  "element_text s = s 0"

definition advance :: "surface \<Rightarrow> surface" where
  "advance s = (\<lambda>i. s (Suc i))"

text \<open>One constructor for each \<open>print\<close> statement of the handshake functions.\<close>

datatype message =
    ExceededWelcome int
  | CouldNotConnect
  | WelcomeFound
  | ExceededPassword int
  | AccessDeniedPassword string
  | PasswordAccepted
  | AccessDenied
  | ExceededPrompt int
  | PromptFound
  | HtmlFileNotFound
  | HtmlNotFound

text \<open>
  The effects of a run, in the order in which they happen. A duration is a number of
  milliseconds, so \<open>time.sleep(0.5)\<close> is \<open>Sleep 500\<close>.
\<close>

datatype event =
    ReadText string
  | Sleep nat
  | Print message
  | KeyWrite string
  | KeyPress string
  | BrowserOpen
  | UrlClear
  | UrlSendKeys string
  | UrlSendReturn
  | BrowserClose

section \<open>The three stages of the handshake\<close>

text \<open>
  Each stage returns its boolean result, the surface that is left, and the events it
  caused. \<open>welcome_loop\<close> is the \<open>while\<close> loop of \<open>wait_for_welcome_message\<close> with the
  current value of \<open>tries\<close>; the \<open>else\<close> clause of the loop runs when the condition fails.
\<close>

function welcome_loop :: "nat \<Rightarrow> int \<Rightarrow> int \<Rightarrow> surface \<Rightarrow> bool \<times> surface \<times> event list" where
  "welcome_loop interval max_retries tries s =
     (if \<not> str_in ''Welcome'' (element_text s) then
        (if tries > max_retries then
           (False, advance s,
            [ReadText (element_text s), Print (ExceededWelcome max_retries)])
         else if str_in ''Disconnected'' (element_text (advance s)) then
           (False, advance (advance s),
            [ReadText (element_text s), Sleep interval,
             ReadText (element_text (advance s)), Print CouldNotConnect])
         else
           (case welcome_loop interval max_retries (tries + 1) (advance (advance s)) of
              (b, s', evs) \<Rightarrow>
                (b, s', ReadText (element_text s) # Sleep interval #
                        ReadText (element_text (advance s)) # evs)))
      else (True, advance s, [ReadText (element_text s), Print WelcomeFound]))"
  by pat_completeness auto
termination
  by (relation "measure (\<lambda>(interval, max_retries, tries, s). nat (max_retries + 1 - tries))") auto

declare welcome_loop.simps [simp del]

definition wait_for_welcome_message :: "surface \<Rightarrow> nat \<Rightarrow> int \<Rightarrow> bool \<times> surface \<times> event list" where
  "wait_for_welcome_message s interval max_retries = welcome_loop interval max_retries 0 s"

text \<open>
  \<open>password_loop\<close> is the \<open>while\<close> loop of \<open>enter_password\<close>; it returns \<open>True\<close> when the
  loop ends because \<open>"Password"\<close> is in the text, and \<open>False\<close> when the body returns.
\<close>

function password_loop :: "nat \<Rightarrow> int \<Rightarrow> int \<Rightarrow> surface \<Rightarrow> bool \<times> surface \<times> event list" where
  "password_loop interval max_retries tries s =
     (if \<not> str_in ''Password'' (element_text s) then
        (if str_in ''Disconnected'' (element_text (advance s)) then
           (False, advance (advance s),
            [ReadText (element_text s), ReadText (element_text (advance s)),
             Print CouldNotConnect])
         else if tries > max_retries then
           (False, advance (advance s),
            [ReadText (element_text s), ReadText (element_text (advance s)),
             Print (ExceededPassword max_retries)])
         else
           (case password_loop interval max_retries (tries + 1) (advance (advance s)) of
              (b, s', evs) \<Rightarrow>
                (b, s', ReadText (element_text s) # ReadText (element_text (advance s)) #
                        Sleep interval # evs)))
      else (True, advance s, [ReadText (element_text s)]))"
  by pat_completeness auto
termination
  by (relation "measure (\<lambda>(interval, max_retries, tries, s). nat (max_retries + 1 - tries))") auto

declare password_loop.simps [simp del]

definition enter_password :: "surface \<Rightarrow> string \<Rightarrow> nat \<Rightarrow> int \<Rightarrow> bool \<times> surface \<times> event list" where
  "enter_password s password interval max_retries =
     (case password_loop interval max_retries 0 s of
        (False, s', evs) \<Rightarrow> (False, s', evs)
      | (True, s', evs) \<Rightarrow>
          (if str_in ''Access denied'' (element_text s') then
             (False, advance s',
              evs @ [KeyWrite password, KeyWrite [CHR 0x0A], Sleep 500,
                     ReadText (element_text s'), Print (AccessDeniedPassword password)])
           else
             (True, advance s',
              evs @ [KeyWrite password, KeyWrite [CHR 0x0A], Sleep 500,
                     ReadText (element_text s'), Print PasswordAccepted])))"

text \<open>
  \<open>prompt_loop\<close> is the \<open>while\<close> loop of \<open>wait_for_repl_prompt\<close>. The body evaluates
  \<open>element.text\<close> once more for the debug line before it sleeps.
\<close>

function prompt_loop :: "int \<Rightarrow> int \<Rightarrow> surface \<Rightarrow> bool \<times> surface \<times> event list" where
  "prompt_loop max_retries tries s =
     (if \<not> str_in ''>>>'' (element_text s) then
        (if tries + 1 > max_retries then
           (False, advance (advance s),
            [ReadText (element_text s), ReadText (element_text (advance s)), Sleep 500,
             Print (ExceededPrompt max_retries)])
         else
           (case prompt_loop max_retries (tries + 1) (advance (advance s)) of
              (b, s', evs) \<Rightarrow>
                (b, s', ReadText (element_text s) # ReadText (element_text (advance s)) #
                        Sleep 500 # evs)))
      else (True, advance s, [ReadText (element_text s), Print PromptFound]))"
  by pat_completeness auto
termination
  by (relation "measure (\<lambda>(max_retries, tries, s). nat (max_retries - tries))") auto

declare prompt_loop.simps [simp del]

definition wait_for_repl_prompt :: "surface \<Rightarrow> int \<Rightarrow> bool \<times> surface \<times> event list" where
  "wait_for_repl_prompt s max_retries =
     (if str_in ''Access denied'' (element_text s) then
        (False, advance s, [ReadText (element_text s), Print AccessDenied])
      else
        (case prompt_loop max_retries 0 (advance s) of
           (False, s', evs) \<Rightarrow> (False, s', ReadText (element_text s) # evs)
         | (True, s', evs) \<Rightarrow>
             (True, s', ReadText (element_text s) # evs @ [KeyPress ''ctrl+b''])))"

section \<open>The launcher: \<open>start_webrepl_with_selenium\<close>\<close>

text \<open>
  The function returns \<open>False\<close> when the page file is missing, \<open>None\<close> when a stage fails,
  and the browser object otherwise. \<open>html_found\<close> is the outcome of
  \<open>find_webrepl_html_file\<close>, which prints a message of its own when the file is missing,
  and the stages are called with their default arguments.
\<close>

datatype launch_result = ReturnFalse | ReturnNone | ReturnBrowser

definition start_session :: "string \<Rightarrow> event list" where
  "start_session url = [UrlClear, UrlSendKeys url, UrlSendReturn]"

definition start_webrepl_with_selenium ::
  "bool \<Rightarrow> surface \<Rightarrow> string \<Rightarrow> string \<Rightarrow> launch_result \<times> event list" where
  "start_webrepl_with_selenium html_found s url password =
     (if \<not> html_found then (ReturnFalse, [Print HtmlFileNotFound, Print HtmlNotFound])
      else
        (case wait_for_welcome_message s 500 10 of
           (False, s1, ev1) \<Rightarrow>
             (ReturnNone, BrowserOpen # start_session url @ ev1 @ [BrowserClose])
         | (True, s1, ev1) \<Rightarrow>
             (case enter_password s1 password 500 10 of
                (False, s2, ev2) \<Rightarrow>
                  (ReturnNone, BrowserOpen # start_session url @ ev1 @ ev2 @ [BrowserClose])
              | (True, s2, ev2) \<Rightarrow>
                  (case wait_for_repl_prompt s2 10 of
                     (False, s3, ev3) \<Rightarrow>
                       (ReturnNone,
                        BrowserOpen # start_session url @ ev1 @ ev2 @ ev3 @ [BrowserClose])
                   | (True, s3, ev3) \<Rightarrow>
                       (ReturnBrowser,
                        BrowserOpen # start_session url @ ev1 @ ev2 @ ev3)))))"

section \<open>Simulated surfaces and measures of a run\<close>

text \<open>
  \<open>const_surface t\<close> shows the text \<open>t\<close> at every read; \<open>list_surface ts t\<close> shows the
  texts of \<open>ts\<close> at the first reads and \<open>t\<close> from then on.
\<close>

definition const_surface :: "string \<Rightarrow> surface" where
  "const_surface t = (\<lambda>i. t)"

definition list_surface :: "string list \<Rightarrow> string \<Rightarrow> surface" where
  "list_surface ts t = (\<lambda>i. if i < length ts then ts ! i else t)"

fun is_read :: "event \<Rightarrow> bool" where
  "is_read (ReadText t) = True"
| "is_read e = False"

fun is_sleep :: "event \<Rightarrow> bool" where
  "is_sleep (Sleep d) = True"
| "is_sleep e = False"

fun is_key_write :: "event \<Rightarrow> bool" where
  "is_key_write (KeyWrite k) = True"
| "is_key_write e = False"

fun is_print :: "event \<Rightarrow> bool" where
  "is_print (Print m) = True"
| "is_print e = False"

text \<open>
  The events that a stage of the handshake can cause: reads of the terminal, sleeps,
  messages and keyboard input. The browser is opened and closed by the launcher only.
\<close>

fun stage_event :: "event \<Rightarrow> bool" where
  "stage_event BrowserOpen = False"
| "stage_event BrowserClose = False"
| "stage_event UrlClear = False"
| "stage_event (UrlSendKeys u) = False"
| "stage_event UrlSendReturn = False"
| "stage_event e = True"

text \<open>The messages that are printed just before a stage returns \<open>False\<close>.\<close>

fun is_failure :: "message \<Rightarrow> bool" where
  "is_failure (ExceededWelcome n) = True"
| "is_failure CouldNotConnect = True"
| "is_failure (ExceededPassword n) = True"
| "is_failure (AccessDeniedPassword p) = True"
| "is_failure AccessDenied = True"
| "is_failure (ExceededPrompt n) = True"
| "is_failure m = False"

definition reads :: "event list \<Rightarrow> nat" where
  "reads evs = length (filter is_read evs)"

definition sleeps :: "event list \<Rightarrow> nat" where
  "sleeps evs = length (filter is_sleep evs)"

section \<open>The client page: \<open>start_webrepl_html\<close>\<close>

text \<open>
  The page file is opened in text mode, for reading and then for writing. The file is
  either missing, or its content does not decode in the encoding of the platform, or it
  holds a sequence of characters, line ends as they are stored. A character stands for a
  character of that encoding, and the address is made of such characters as well.

  Reading in text mode turns every \<open>\r\n\<close> and every other \<open>\r\<close> into \<open>\n\<close>
  (\<open>universal_newlines\<close>); writing turns every \<open>\n\<close> into \<open>os.linesep\<close>
  (\<open>write_newlines\<close>), which is \<open>\n\<close> on POSIX and \<open>\r\n\<close> on Windows.
\<close>

definition newline :: char where
  "newline = CHR 0x0A"

definition carriage_return :: char where
  "carriage_return = CHR 0x0D"

datatype platform = Posix | Windows

fun os_linesep :: "platform \<Rightarrow> string" where
  "os_linesep Posix = [newline]"
| "os_linesep Windows = [carriage_return, newline]"


definition write_newlines :: "platform \<Rightarrow> string \<Rightarrow> string" where
  "write_newlines p t = concat (map (\<lambda>c. if c = newline then os_linesep p else [c]) t)"









section \<open>Reading a URL back\<close>






section \<open>Facts about the string functions\<close>

lemma startswith_iff: "startswith s p \<longleftrightarrow> (\<exists>r. s = p @ r)"
  by (induction s p rule: startswith.induct) auto

lemma str_in_iff: "str_in p s \<longleftrightarrow> (\<exists>a b. s = a @ p @ b)"
proof (induction s)
  case Nil
  then show ?case by auto
next
  case (Cons c cs)
  show ?case
  proof
    assume "str_in p (c # cs)"
    then consider "startswith (c # cs) p" | "str_in p cs" by auto
    then show "\<exists>a b. c # cs = a @ p @ b"
    proof cases
      case 1
      then obtain r where "c # cs = p @ r" by (auto simp: startswith_iff)
      then have "c # cs = [] @ p @ r" by simp
      then show ?thesis by blast
    next
      case 2
      then obtain a b where "cs = a @ p @ b" using Cons.IH by blast
      then have "c # cs = (c # a) @ p @ b" by simp
      then show ?thesis by blast
    qed
  next
    assume "\<exists>a b. c # cs = a @ p @ b"
    then obtain a b where ab: "c # cs = a @ p @ b" by blast
    show "str_in p (c # cs)"
    proof (cases a)
      case Nil
      then have "startswith (c # cs) p" using ab by (auto simp: startswith_iff)
      then show ?thesis by simp
    next
      case (Cons x a')
      then have "cs = a' @ p @ b" using ab by simp
      then have "str_in p cs" using Cons.IH by blast
      then show ?thesis by simp
    qed
  qed
qed

lemma str_in_single: "str_in [c] s \<longleftrightarrow> c \<in> set s"
  by (induction s) auto

lemma split_sep_none: "c \<notin> set s \<Longrightarrow> split_sep c n s = [s]"
  by (induction s) auto


lemma split_sep_first: "c \<notin> set h \<Longrightarrow> split_sep c (Suc n) (h @ c # r) = h # split_sep c n r"
  by (induction h) auto

lemma endpoint_one_colon:
  assumes "CHR '':'' \<notin> set h" "CHR '':'' \<notin> set r"
  shows "ip_to_url_endpoint (h @ CHR '':'' # r) port = Inr (h, PyStr r)"
proof -
  have "split_sep CHR '':'' 2 (h @ CHR '':'' # r) = [h, r]"
    using assms split_sep_first [of "CHR '':''" h 1 r] split_sep_none [of "CHR '':''" r 1]
    by (simp add: numeral_2_eq_2)
  then show ?thesis
    by (simp add: ip_to_url_endpoint_def str_in_single)
qed


lemma endpoint_no_colon:
  assumes "CHR '':'' \<notin> set ip"
  shows "ip_to_url_endpoint ip port = Inr (ip, if truthy port then port else PyInt 8266)"
  using assms by (simp add: ip_to_url_endpoint_def str_in_single)

lemma take_drop_first:
  assumes "c \<notin> set h"
  shows "takeWhile (\<lambda>x. x \<noteq> c) (h @ c # r) = h" "tl (dropWhile (\<lambda>x. x \<noteq> c) (h @ c # r)) = r"
  using assms by (induction h) auto










section \<open>Claims about the address\<close>






text \<open>
  Claim C4. The claim asks for one split, at the first colon, also when the input has
  two or more colons. The code splits with \<open>maxsplit=2\<close> and assigns the parts to two
  names: an input with two colons gives three parts, and the assignment raises
  \<open>ValueError\<close>.
\<close>

theorem ip_to_url_two_separators:
  "split_sep CHR '':'' 2 ''192.168.1.5:1111:22'' = [''192.168.1.5'', ''1111'', ''22''] \<and>
   ip_to_url ''192.168.1.5:1111:22'' port = Inl ValueError"
  by (simp add: ip_to_url_def ip_to_url_endpoint_def)

text \<open>
  Claim C5. The code never inspects the port. An input with the port \<open>abc\<close> is turned
  into a URL, where the claim expects a failure.
\<close>

theorem ip_to_url_accepts_any_port_counterexample:
  "ip_to_url ''192.168.1.5:abc'' (PyStr []) = Inr ''ws://192.168.1.5:abc/''"
  by (simp add: ip_to_url_def ip_to_url_endpoint_def format_url_def)

text \<open>
  Claim C5, as amended. For every input with at most one colon and every explicit port,
  \<open>ip_to_url\<close> succeeds: with a colon the host is the text before it and the port the text
  after it, taken as it is; without a colon the port is the explicit port when that is
  truthy and 8266 otherwise.
\<close>

theorem ip_to_url_no_port_validation:
  assumes "length (filter (\<lambda>c. c = CHR '':'') ip) \<le> 1"
  shows "\<exists>host p. ip_to_url_endpoint ip port = Inr (host, p) \<and>
           ip_to_url ip port = Inr (''ws://'' @ host @ '':'' @ py_str p @ ''/'') \<and>
           (CHR '':'' \<in> set ip \<longrightarrow>
              host = takeWhile (\<lambda>c. c \<noteq> CHR '':'') ip \<and>
              p = PyStr (tl (dropWhile (\<lambda>c. c \<noteq> CHR '':'') ip))) \<and>
           (CHR '':'' \<notin> set ip \<longrightarrow>
              host = ip \<and> p = (if truthy port then port else PyInt 8266))"
proof (cases "CHR '':'' \<in> set ip")
  case False
  then show ?thesis
    by (simp add: ip_to_url_def endpoint_no_colon format_url_def)
next
  case True
  then obtain h r where hr: "ip = h @ CHR '':'' # r" "CHR '':'' \<notin> set h"
    by (meson split_list_first)
  have "filter (\<lambda>c. c = CHR '':'') h = []"
    using hr(2) by (induction h) auto
  then have "filter (\<lambda>c. c = CHR '':'') r = []"
    using assms hr(1) by simp
  then have r: "CHR '':'' \<notin> set r"
    by (auto simp: filter_empty_conv)
  show ?thesis
    using hr r take_drop_first [OF hr(2), of r]
    by (simp add: ip_to_url_def endpoint_one_colon format_url_def)
qed

theorem ip_to_url_no_port_validation_witness:
  "length (filter (\<lambda>c. c = CHR '':'') ''192.168.1.5:abc'') \<le> 1 \<and>
   (\<exists>host p. ip_to_url_endpoint ''192.168.1.5:abc'' (PyStr []) = Inr (host, p) \<and>
      ip_to_url ''192.168.1.5:abc'' (PyStr []) = Inr (''ws://'' @ host @ '':'' @ py_str p @ ''/'') \<and>
      host = ''192.168.1.5'' \<and> p = PyStr ''abc'')"
  using ip_to_url_no_port_validation [of "''192.168.1.5:abc''" "PyStr []"]
  by simp



section \<open>Facts about the handshake\<close>

lemma advance_apply [simp]: "advance s i = s (Suc i)"
  by (simp add: advance_def)

lemma element_text_apply [simp]: "element_text s = s 0"
  by (simp add: element_text_def)

lemma concat_map_upt_Suc:
  "concat (map f [0..<Suc n]) = f 0 @ concat (map (\<lambda>k. f (Suc k)) [0..<n])"
proof -
  have "[0..<Suc n] = 0 # map Suc [0..<n]"
    by (simp add: upt_conv_Cons map_Suc_upt del: upt_Suc)
  then show ?thesis by (simp add: comp_def del: upt_Suc)
qed

lemma welcome_loop_timeout:
  assumes "\<forall>k\<le>n. \<not> str_in ''Welcome'' (s (2 * k))"
    and "\<forall>k<n. \<not> str_in ''Disconnected'' (s (2 * k + 1))"
    and "n = nat (m + 1 - tries)" and "tries \<le> m + 1"
  shows "\<exists>s'. welcome_loop iv m tries s =
           (False, s',
            concat (map (\<lambda>k. [ReadText (s (2 * k)), Sleep iv, ReadText (s (2 * k + 1))]) [0..<n])
            @ [ReadText (s (2 * n)), Print (ExceededWelcome m)])"
  using assms
proof (induction n arbitrary: tries s)
  case 0
  then have "tries > m" by simp
  with 0 show ?case by (subst welcome_loop.simps) simp
next
  case (Suc n)
  let ?s = "advance (advance s)"
  from Suc.prems have le: "\<not> tries > m" by simp
  from Suc.prems have w0: "\<not> str_in ''Welcome'' (s 0)" by force
  from Suc.prems have d1: "\<not> str_in ''Disconnected'' (s (Suc 0))" by force
  have a: "\<forall>k\<le>n. \<not> str_in ''Welcome'' (?s (2 * k))"
  proof (intro allI impI)
    fix k assume "k \<le> n"
    then have "Suc k \<le> Suc n" by simp
    with Suc.prems(1) have "\<not> str_in ''Welcome'' (s (2 * Suc k))" by blast
    then show "\<not> str_in ''Welcome'' (?s (2 * k))" by simp
  qed
  have b: "\<forall>k<n. \<not> str_in ''Disconnected'' (?s (2 * k + 1))"
  proof (intro allI impI)
    fix k assume "k < n"
    then have "Suc k < Suc n" by simp
    with Suc.prems(2) have "\<not> str_in ''Disconnected'' (s (2 * Suc k + 1))" by blast
    then show "\<not> str_in ''Disconnected'' (?s (2 * k + 1))" by simp
  qed
  from Suc.prems have c: "n = nat (m + 1 - (tries + 1))" "tries + 1 \<le> m + 1" by simp_all
  from Suc.IH [OF a b c] obtain s' where rec:
    "welcome_loop iv m (tries + 1) ?s =
       (False, s',
        concat (map (\<lambda>k. [ReadText (?s (2 * k)), Sleep iv, ReadText (?s (2 * k + 1))]) [0..<n])
        @ [ReadText (?s (2 * n)), Print (ExceededWelcome m)])"
    by blast
  show ?case
    using le w0 d1
    by (subst welcome_loop.simps, subst concat_map_upt_Suc) (simp add: rec del: upt_Suc)
qed

lemma reads_simps [simp]:
  "reads [] = 0"
  "reads (e # evs) = (if is_read e then Suc (reads evs) else reads evs)"
  "reads (xs @ ys) = reads xs + reads ys"
  by (simp_all add: reads_def)

lemma sleeps_simps [simp]:
  "sleeps [] = 0"
  "sleeps (e # evs) = (if is_sleep e then Suc (sleeps evs) else sleeps evs)"
  "sleeps (xs @ ys) = sleeps xs + sleeps ys"
  by (simp_all add: sleeps_def)

lemma iteration_counts:
  "reads (concat (map (\<lambda>k. [ReadText (f k), Sleep iv, ReadText (g k)]) [0..<n])) = 2 * n"
  "sleeps (concat (map (\<lambda>k. [ReadText (f k), Sleep iv, ReadText (g k)]) [0..<n])) = n"
  "filter is_print (concat (map (\<lambda>k. [ReadText (f k), Sleep iv, ReadText (g k)]) [0..<n])) = []"
  by (induction n) simp_all

text \<open>
  Claim C1, as amended. For every surface whose texts contain neither \<open>Welcome\<close> nor
  \<open>Disconnected\<close> and every \<open>max_retries\<close> that is not negative,
  \<open>wait_for_welcome_message\<close> returns \<open>False\<close> with the exceeded-tries message as its only
  message, after \<open>max_retries + 1\<close> rounds of reading the text for \<open>Welcome\<close>, sleeping and
  reading it again for \<open>Disconnected\<close>, and one last read for \<open>Welcome\<close>. With
  \<open>max_retries = 10\<close> that is 11 sleeps and 23 reads, 12 of them at the head of the loop.
\<close>

theorem welcome_timeout_after_retries:
  assumes "\<forall>i. \<not> str_in ''Welcome'' (s i)"
    and "\<forall>i. \<not> str_in ''Disconnected'' (s i)"
    and "0 \<le> max_retries"
  shows "\<exists>s' evs. wait_for_welcome_message s interval max_retries = (False, s', evs) \<and>
           evs = concat (map (\<lambda>k. [ReadText (s (2 * k)), Sleep interval, ReadText (s (2 * k + 1))])
                         [0..<nat max_retries + 1])
                 @ [ReadText (s (2 * (nat max_retries + 1))), Print (ExceededWelcome max_retries)] \<and>
           filter is_print evs = [Print (ExceededWelcome max_retries)] \<and>
           sleeps evs = nat max_retries + 1 \<and>
           reads evs = 2 * nat max_retries + 3"
proof -
  define n where "n = nat max_retries + 1"
  define evs where
    "evs = concat (map (\<lambda>k. [ReadText (s (2 * k)), Sleep interval, ReadText (s (2 * k + 1))]) [0..<n])
           @ [ReadText (s (2 * n)), Print (ExceededWelcome max_retries)]"
  have n: "n = nat (max_retries + 1 - 0)" and le: "0 \<le> max_retries + 1"
    using assms(3) by (simp_all add: n_def)
  have w: "\<forall>k\<le>n. \<not> str_in ''Welcome'' (s (2 * k))" using assms(1) by blast
  have d: "\<forall>k<n. \<not> str_in ''Disconnected'' (s (2 * k + 1))" using assms(2) by blast
  from welcome_loop_timeout [OF w d n le, of interval] obtain s' where
    run: "wait_for_welcome_message s interval max_retries = (False, s', evs)"
    unfolding wait_for_welcome_message_def evs_def by blast
  have p: "filter is_print evs = [Print (ExceededWelcome max_retries)]"
    unfolding evs_def by (simp add: iteration_counts del: upt_Suc)
  have sl: "sleeps evs = nat max_retries + 1"
    unfolding evs_def by (simp add: iteration_counts n_def del: upt_Suc)
  have rd: "reads evs = 2 * nat max_retries + 3"
    unfolding evs_def by (simp add: iteration_counts n_def del: upt_Suc)
  from run p sl rd show ?thesis
    unfolding evs_def n_def by blast
qed

theorem welcome_timeout_after_retries_witness:
  "(\<forall>i. \<not> str_in ''Welcome'' (const_surface [] i)) \<and>
   (\<forall>i. \<not> str_in ''Disconnected'' (const_surface [] i)) \<and>
   (\<exists>s' evs. wait_for_welcome_message (const_surface []) 0 10 = (False, s', evs) \<and>
      filter is_print evs = [Print (ExceededWelcome 10)] \<and>
      sleeps evs = 11 \<and> reads evs = 23)"
proof -
  have w: "\<forall>i. \<not> str_in ''Welcome'' (const_surface [] i)"
    by (simp add: const_surface_def)
  have d: "\<forall>i. \<not> str_in ''Disconnected'' (const_surface [] i)"
    by (simp add: const_surface_def)
  have m: "(0::int) \<le> 10" by simp
  from welcome_timeout_after_retries [OF w d m, of 0] obtain s' evs where
    run: "wait_for_welcome_message (const_surface []) 0 10 = (False, s', evs)"
    and p: "filter is_print evs = [Print (ExceededWelcome 10)]"
    and sl: "sleeps evs = nat 10 + 1" and rd: "reads evs = 2 * nat 10 + 3"
    by blast
  from sl rd have "sleeps evs = 11" "reads evs = 23" by simp_all
  with run p w d show ?thesis by blast
qed

text \<open>
  Claim C1. A surface that shows \<open>Disconnected\<close> never shows \<open>Welcome\<close>, yet the welcome
  stage leaves after one sleep and two reads with the could-not-connect message, not
  after 11 polls with the exceeded-tries message.
\<close>

theorem welcome_disconnected_counterexample:
  "\<not> str_in ''Welcome'' ''Disconnected'' \<and>
   fst (wait_for_welcome_message (const_surface ''Disconnected'') 0 10) = False \<and>
   snd (snd (wait_for_welcome_message (const_surface ''Disconnected'') 0 10)) =
     [ReadText ''Disconnected'', Sleep 0, ReadText ''Disconnected'', Print CouldNotConnect]"
  by (simp add: wait_for_welcome_message_def welcome_loop.simps const_surface_def)

lemma welcome_loop_disconnected:
  assumes "str_in ''Disconnected'' (s (2 * k + 1))"
    and "\<forall>i\<le>2 * k. \<not> str_in ''Welcome'' (s i)"
    and "tries + int k \<le> m"
  shows "\<exists>s' evs. welcome_loop iv m tries s = (False, s', evs) \<and>
           filter is_print evs = [Print CouldNotConnect] \<and> last evs = Print CouldNotConnect"
  using assms
proof (induction k arbitrary: tries s)
  case 0
  then show ?case by (subst welcome_loop.simps) simp
next
  case (Suc k)
  let ?s = "advance (advance s)"
  from Suc.prems have w0: "\<not> str_in ''Welcome'' (s 0)" and le: "\<not> tries > m" by simp_all
  show ?case
  proof (cases "str_in ''Disconnected'' (s (Suc 0))")
    case True
    with w0 le show ?thesis by (subst welcome_loop.simps) simp
  next
    case False
    from Suc.prems(1) have a: "str_in ''Disconnected'' (?s (2 * k + 1))" by simp
    have b: "\<forall>i\<le>2 * k. \<not> str_in ''Welcome'' (?s i)"
    proof (intro allI impI)
      fix i assume "i \<le> 2 * k"
      then have "Suc (Suc i) \<le> 2 * Suc k" by simp
      with Suc.prems(2) have "\<not> str_in ''Welcome'' (s (Suc (Suc i)))" by blast
      then show "\<not> str_in ''Welcome'' (?s i)" by simp
    qed
    from Suc.prems(3) have c: "tries + 1 + int k \<le> m" by simp
    from Suc.IH [OF a b c] obtain s' evs where
      "welcome_loop iv m (tries + 1) ?s = (False, s', evs)"
      "filter is_print evs = [Print CouldNotConnect]" "last evs = Print CouldNotConnect"
      by blast
    moreover from this have "evs \<noteq> []" by auto
    ultimately show ?thesis
      using w0 le False by (subst welcome_loop.simps) simp
  qed
qed

lemma password_loop_disconnected:
  assumes "str_in ''Disconnected'' (s (2 * k + 1))"
    and "\<forall>i\<le>2 * k. \<not> str_in ''Password'' (s i)"
    and "tries + int k \<le> m + 1"
  shows "\<exists>s' evs. password_loop iv m tries s = (False, s', evs) \<and>
           filter is_print evs = [Print CouldNotConnect] \<and> last evs = Print CouldNotConnect"
  using assms
proof (induction k arbitrary: tries s)
  case 0
  then show ?case by (subst password_loop.simps) simp
next
  case (Suc k)
  let ?s = "advance (advance s)"
  from Suc.prems have p0: "\<not> str_in ''Password'' (s 0)" and le: "\<not> tries > m" by simp_all
  show ?case
  proof (cases "str_in ''Disconnected'' (s (Suc 0))")
    case True
    with p0 show ?thesis by (subst password_loop.simps) simp
  next
    case False
    from Suc.prems(1) have a: "str_in ''Disconnected'' (?s (2 * k + 1))" by simp
    have b: "\<forall>i\<le>2 * k. \<not> str_in ''Password'' (?s i)"
    proof (intro allI impI)
      fix i assume "i \<le> 2 * k"
      then have "Suc (Suc i) \<le> 2 * Suc k" by simp
      with Suc.prems(2) have "\<not> str_in ''Password'' (s (Suc (Suc i)))" by blast
      then show "\<not> str_in ''Password'' (?s i)" by simp
    qed
    from Suc.prems(3) have c: "tries + 1 + int k \<le> m + 1" by simp
    from Suc.IH [OF a b c] obtain s' evs where
      "password_loop iv m (tries + 1) ?s = (False, s', evs)"
      "filter is_print evs = [Print CouldNotConnect]" "last evs = Print CouldNotConnect"
      by blast
    moreover from this have "evs \<noteq> []" by auto
    ultimately show ?thesis
      using p0 le False by (subst password_loop.simps) simp
  qed
qed

text \<open>
  Claim C2. In the welcome stage the retry count is tested before the sleep, and
  \<open>Disconnected\<close> is looked for after it. On a surface that shows \<open>Disconnected\<close> from
  its 23rd text on, the stage reads that text at the head of the loop, tests the retry
  count and returns with the exceeded-tries message. A text read at the head of the loop
  is never searched for \<open>Disconnected\<close>: on a surface whose first text only shows it,
  the stage ends with the exceeded-tries message too.
\<close>

theorem disconnected_checked_after_sleep_counterexample:
  "str_in ''Disconnected'' (list_surface (replicate 22 []) ''Disconnected'' 22) \<and>
   fst (wait_for_welcome_message (list_surface (replicate 22 []) ''Disconnected'') 500 10) = False \<and>
   filter is_print
     (snd (snd (wait_for_welcome_message (list_surface (replicate 22 []) ''Disconnected'') 500 10)))
     = [Print (ExceededWelcome 10)] \<and>
   reads (snd (snd (wait_for_welcome_message (list_surface (replicate 22 []) ''Disconnected'') 500 10)))
     = 23 \<and>
   ReadText ''Disconnected''
     \<in> set (snd (snd (wait_for_welcome_message (list_surface (replicate 22 []) ''Disconnected'') 500 10))) \<and>
   str_in ''Disconnected'' (list_surface [''Disconnected''] [] 0) \<and>
   fst (wait_for_welcome_message (list_surface [''Disconnected''] []) 500 10) = False \<and>
   filter is_print (snd (snd (wait_for_welcome_message (list_surface [''Disconnected''] []) 500 10)))
     = [Print (ExceededWelcome 10)]"
proof -
  let ?s = "list_surface (replicate 22 []) ''Disconnected''"
  let ?t = "list_surface [''Disconnected''] []"
  have shown: "?s i = (if i < 22 then [] else ''Disconnected'')" for i
    by (simp add: list_surface_def)
  have first: "?t i = (if i = 0 then ''Disconnected'' else [])" for i
    by (simp add: list_surface_def)
  have n: "(11::nat) = nat (10 + 1 - 0)" and le: "(0::int) \<le> 10 + 1" by simp_all
  have w: "\<forall>k\<le>11. \<not> str_in ''Welcome'' (?s (2 * k))"
    by (simp add: shown)
  have d: "\<forall>k<11. \<not> str_in ''Disconnected'' (?s (2 * k + 1))"
    by (simp add: shown)
  from welcome_loop_timeout [OF w d n le, of 500] obtain s' where
    run: "wait_for_welcome_message ?s 500 10 =
      (False, s',
       concat (map (\<lambda>k. [ReadText (?s (2 * k)), Sleep 500, ReadText (?s (2 * k + 1))]) [0..<11])
       @ [ReadText (?s (2 * 11)), Print (ExceededWelcome 10)])"
    unfolding wait_for_welcome_message_def by blast
  have "?s 22 = ''Disconnected''" by (simp add: shown)
  then have late: "str_in ''Disconnected'' (?s 22) \<and>
      fst (wait_for_welcome_message ?s 500 10) = False \<and>
      filter is_print (snd (snd (wait_for_welcome_message ?s 500 10))) = [Print (ExceededWelcome 10)] \<and>
      reads (snd (snd (wait_for_welcome_message ?s 500 10))) = 23 \<and>
      ReadText ''Disconnected'' \<in> set (snd (snd (wait_for_welcome_message ?s 500 10)))"
    unfolding run by (simp add: iteration_counts del: upt_Suc)
  have w': "\<forall>k\<le>11. \<not> str_in ''Welcome'' (?t (2 * k))"
    by (simp add: first)
  have d': "\<forall>k<11. \<not> str_in ''Disconnected'' (?t (2 * k + 1))"
    by (simp add: first)
  from welcome_loop_timeout [OF w' d' n le, of 500] obtain t' where
    run': "wait_for_welcome_message ?t 500 10 =
      (False, t',
       concat (map (\<lambda>k. [ReadText (?t (2 * k)), Sleep 500, ReadText (?t (2 * k + 1))]) [0..<11])
       @ [ReadText (?t (2 * 11)), Print (ExceededWelcome 10)])"
    unfolding wait_for_welcome_message_def by blast
  have early: "str_in ''Disconnected'' (?t 0) \<and>
      fst (wait_for_welcome_message ?t 500 10) = False \<and>
      filter is_print (snd (snd (wait_for_welcome_message ?t 500 10))) = [Print (ExceededWelcome 10)]"
    unfolding run' by (simp add: iteration_counts first del: upt_Suc)
  from late early show ?thesis by blast
qed

text \<open>
  Claim C2, as amended. Each round of the welcome stage reads the text for \<open>Welcome\<close>,
  tests the retry count, sleeps and reads the text again for \<open>Disconnected\<close>; each round
  of the password stage reads the text for \<open>Password\<close>, reads it again for
  \<open>Disconnected\<close> and then tests the retry count. If the read for \<open>Disconnected\<close> of round
  \<open>k\<close> (the text number \<open>2 * k + 1\<close>) contains it, no text before it contains the target
  marker, and \<open>k\<close> is at most \<open>max_retries\<close> (welcome) or \<open>max_retries + 1\<close> (password), the
  stage returns \<open>False\<close> and its only message is the could-not-connect one.
\<close>

theorem disconnected_before_target:
  "(str_in ''Disconnected'' (s (2 * k + 1)) \<and> (\<forall>i\<le>2 * k. \<not> str_in ''Welcome'' (s i)) \<and>
    int k \<le> max_retries \<longrightarrow>
      (\<exists>s' evs. wait_for_welcome_message s interval max_retries = (False, s', evs) \<and>
         filter is_print evs = [Print CouldNotConnect] \<and> last evs = Print CouldNotConnect)) \<and>
   (str_in ''Disconnected'' (s (2 * k + 1)) \<and> (\<forall>i\<le>2 * k. \<not> str_in ''Password'' (s i)) \<and>
    int k \<le> max_retries + 1 \<longrightarrow>
      (\<exists>s' evs. enter_password s password interval max_retries = (False, s', evs) \<and>
         filter is_print evs = [Print CouldNotConnect] \<and> last evs = Print CouldNotConnect))"
proof (intro conjI impI)
  assume "str_in ''Disconnected'' (s (2 * k + 1)) \<and> (\<forall>i\<le>2 * k. \<not> str_in ''Welcome'' (s i)) \<and>
    int k \<le> max_retries"
  then show "\<exists>s' evs. wait_for_welcome_message s interval max_retries = (False, s', evs) \<and>
         filter is_print evs = [Print CouldNotConnect] \<and> last evs = Print CouldNotConnect"
    unfolding wait_for_welcome_message_def
    using welcome_loop_disconnected [of s k 0 max_retries interval] by simp
next
  assume "str_in ''Disconnected'' (s (2 * k + 1)) \<and> (\<forall>i\<le>2 * k. \<not> str_in ''Password'' (s i)) \<and>
    int k \<le> max_retries + 1"
  then obtain s' evs where
    "password_loop interval max_retries 0 s = (False, s', evs)"
    "filter is_print evs = [Print CouldNotConnect]" "last evs = Print CouldNotConnect"
    using password_loop_disconnected [of s k 0 max_retries interval] by auto
  then show "\<exists>s' evs. enter_password s password interval max_retries = (False, s', evs) \<and>
         filter is_print evs = [Print CouldNotConnect] \<and> last evs = Print CouldNotConnect"
    by (simp add: enter_password_def)
qed

theorem disconnected_before_target_witness:
  "str_in ''Disconnected'' (list_surface [[], ''Disconnected''] [] (2 * 0 + 1)) \<and>
   \<not> str_in ''Welcome'' (list_surface [[], ''Disconnected''] [] 0) \<and>
   \<not> str_in ''Password'' (list_surface [[], ''Disconnected''] [] 0) \<and>
   int 0 \<le> 10 \<and>
   (\<exists>s' evs. wait_for_welcome_message (list_surface [[], ''Disconnected''] []) 500 10 = (False, s', evs) \<and>
      last evs = Print CouldNotConnect) \<and>
   (\<exists>s' evs. enter_password (list_surface [[], ''Disconnected''] []) ''secret'' 500 10 = (False, s', evs) \<and>
      last evs = Print CouldNotConnect)"
proof -
  let ?s = "list_surface [[], ''Disconnected''] []"
  have d: "str_in ''Disconnected'' (?s (2 * 0 + 1))" by (simp add: list_surface_def)
  have w: "\<forall>i\<le>2 * 0. \<not> str_in ''Welcome'' (?s i)" by (simp add: list_surface_def)
  have p: "\<forall>i\<le>2 * 0. \<not> str_in ''Password'' (?s i)" by (simp add: list_surface_def)
  have m: "int 0 \<le> 10" "int 0 \<le> 10 + 1" by simp_all
  note t = disconnected_before_target [of ?s 0 10 500 "''secret''"]
  from t d w m have a: "\<exists>s' evs. wait_for_welcome_message ?s 500 10 = (False, s', evs) \<and>
      last evs = Print CouldNotConnect" by blast
  from t d p m have b: "\<exists>s' evs. enter_password ?s ''secret'' 500 10 = (False, s', evs) \<and>
      last evs = Print CouldNotConnect" by blast
  have w0: "\<not> str_in ''Welcome'' (?s 0)" and p0: "\<not> str_in ''Password'' (?s 0)"
    by (simp_all add: list_surface_def)
  from d w0 p0 m(1) a b show ?thesis by blast
qed

lemma welcome_loop_events:
  "welcome_loop iv m t s = (b, s', evs) \<Longrightarrow>
     (\<forall>e\<in>set evs. is_read e \<or> is_sleep e \<or> is_print e) \<and> evs \<noteq> [] \<and>
     (\<not> b \<longrightarrow> (\<exists>msg. is_failure msg \<and> last evs = Print msg)) \<and>
     (\<forall>j. \<exists>i. s' j = s i)"
proof (induction iv m t s arbitrary: b s' evs rule: welcome_loop.induct)
  case (1 iv m t s)
  let ?s = "advance (advance s)"
  consider (found) "str_in ''Welcome'' (s 0)"
    | (timeout) "\<not> str_in ''Welcome'' (s 0)" "t > m"
    | (disc) "\<not> str_in ''Welcome'' (s 0)" "\<not> t > m" "str_in ''Disconnected'' (s (Suc 0))"
    | (again) "\<not> str_in ''Welcome'' (s 0)" "\<not> t > m" "\<not> str_in ''Disconnected'' (s (Suc 0))"
    by blast
  then show ?case
  proof cases
    case found
    with "1.prems" have "b = True" "s' = advance s" "evs = [ReadText (s 0), Print WelcomeFound]"
      by (simp_all add: welcome_loop.simps [of iv m t s])
    then show ?thesis by auto
  next
    case timeout
    with "1.prems" have "b = False" "s' = advance s"
      "evs = [ReadText (s 0), Print (ExceededWelcome m)]"
      by (simp_all add: welcome_loop.simps [of iv m t s])
    then show ?thesis by auto
  next
    case disc
    with "1.prems" have "b = False" "s' = ?s"
      "evs = [ReadText (s 0), Sleep iv, ReadText (s (Suc 0)), Print CouldNotConnect]"
      by (simp_all add: welcome_loop.simps [of iv m t s])
    then show ?thesis by auto
  next
    case again
    obtain b1 s1 evs1 where rec: "welcome_loop iv m (t + 1) ?s = (b1, s1, evs1)"
      by (cases "welcome_loop iv m (t + 1) ?s") auto
    with again "1.prems" have res: "b = b1" "s' = s1"
      "evs = ReadText (s 0) # Sleep iv # ReadText (s (Suc 0)) # evs1"
      by (simp_all add: welcome_loop.simps [of iv m t s])
    from again have "\<not> str_in ''Welcome'' (element_text s)" "\<not> m < t"
      "\<not> str_in ''Disconnected'' (element_text (advance s))" by simp_all
    from "1.IH" [OF this rec] have ih:
      "\<forall>e\<in>set evs1. is_read e \<or> is_sleep e \<or> is_print e" "evs1 \<noteq> []"
      "\<not> b1 \<longrightarrow> (\<exists>msg. is_failure msg \<and> last evs1 = Print msg)"
      "\<forall>j. \<exists>i. s1 j = ?s i"
      by blast+
    from ih(4) have "\<forall>j. \<exists>i. s1 j = s i" by (metis advance_apply)
    with ih(1-3) res show ?thesis by simp
  qed
qed

lemma password_loop_events:
  "password_loop iv m t s = (b, s', evs) \<Longrightarrow>
     (\<forall>e\<in>set evs. is_read e \<or> is_sleep e \<or> is_print e) \<and> evs \<noteq> [] \<and>
     (\<not> b \<longrightarrow> (\<exists>msg. is_failure msg \<and> last evs = Print msg)) \<and>
     (b \<longrightarrow> (\<exists>i. last evs = ReadText (s i) \<and> str_in ''Password'' (s i))) \<and>
     (\<forall>j. \<exists>i. s' j = s i)"
proof (induction iv m t s arbitrary: b s' evs rule: password_loop.induct)
  case (1 iv m t s)
  let ?s = "advance (advance s)"
  consider (found) "str_in ''Password'' (s 0)"
    | (disc) "\<not> str_in ''Password'' (s 0)" "str_in ''Disconnected'' (s (Suc 0))"
    | (timeout) "\<not> str_in ''Password'' (s 0)" "\<not> str_in ''Disconnected'' (s (Suc 0))" "t > m"
    | (again) "\<not> str_in ''Password'' (s 0)" "\<not> str_in ''Disconnected'' (s (Suc 0))" "\<not> t > m"
    by blast
  then show ?case
  proof cases
    case found
    with "1.prems" have "b = True" "s' = advance s" "evs = [ReadText (s 0)]"
      by (simp_all add: password_loop.simps [of iv m t s])
    with found show ?thesis by auto
  next
    case disc
    with "1.prems" have "b = False" "s' = ?s"
      "evs = [ReadText (s 0), ReadText (s (Suc 0)), Print CouldNotConnect]"
      by (simp_all add: password_loop.simps [of iv m t s])
    then show ?thesis by auto
  next
    case timeout
    with "1.prems" have "b = False" "s' = ?s"
      "evs = [ReadText (s 0), ReadText (s (Suc 0)), Print (ExceededPassword m)]"
      by (simp_all add: password_loop.simps [of iv m t s])
    then show ?thesis by auto
  next
    case again
    obtain b1 s1 evs1 where rec: "password_loop iv m (t + 1) ?s = (b1, s1, evs1)"
      by (cases "password_loop iv m (t + 1) ?s") auto
    with again "1.prems" have res: "b = b1" "s' = s1"
      "evs = ReadText (s 0) # ReadText (s (Suc 0)) # Sleep iv # evs1"
      by (simp_all add: password_loop.simps [of iv m t s])
    from again have "\<not> str_in ''Password'' (element_text s)"
      "\<not> str_in ''Disconnected'' (element_text (advance s))" "\<not> m < t" by simp_all
    from "1.IH" [OF this rec] have ih:
      "\<forall>e\<in>set evs1. is_read e \<or> is_sleep e \<or> is_print e" "evs1 \<noteq> []"
      "\<not> b1 \<longrightarrow> (\<exists>msg. is_failure msg \<and> last evs1 = Print msg)"
      "b1 \<longrightarrow> (\<exists>i. last evs1 = ReadText (?s i) \<and> str_in ''Password'' (?s i))"
      "\<forall>j. \<exists>i. s1 j = ?s i"
      by blast+
    from ih(4) have "b1 \<longrightarrow> (\<exists>i. last evs1 = ReadText (s i) \<and> str_in ''Password'' (s i))"
      by (metis advance_apply)
    moreover from ih(5) have "\<forall>j. \<exists>i. s1 j = s i" by (metis advance_apply)
    ultimately show ?thesis using ih(1-3) res by simp
  qed
qed

lemma prompt_loop_events:
  "prompt_loop m t s = (b, s', evs) \<Longrightarrow>
     (\<forall>e\<in>set evs. is_read e \<or> is_sleep e \<or> is_print e) \<and> evs \<noteq> [] \<and>
     (\<not> b \<longrightarrow> (\<exists>msg. is_failure msg \<and> last evs = Print msg)) \<and>
     (\<forall>j. \<exists>i. s' j = s i)"
proof (induction m t s arbitrary: b s' evs rule: prompt_loop.induct)
  case (1 m t s)
  let ?s = "advance (advance s)"
  consider (found) "str_in ''>>>'' (s 0)"
    | (timeout) "\<not> str_in ''>>>'' (s 0)" "t + 1 > m"
    | (again) "\<not> str_in ''>>>'' (s 0)" "\<not> t + 1 > m"
    by blast
  then show ?case
  proof cases
    case found
    with "1.prems" have "b = True" "s' = advance s" "evs = [ReadText (s 0), Print PromptFound]"
      by (simp_all add: prompt_loop.simps [of m t s])
    then show ?thesis by auto
  next
    case timeout
    with "1.prems" have "b = False" "s' = ?s"
      "evs = [ReadText (s 0), ReadText (s (Suc 0)), Sleep 500, Print (ExceededPrompt m)]"
      by (simp_all add: prompt_loop.simps [of m t s])
    then show ?thesis by auto
  next
    case again
    obtain b1 s1 evs1 where rec: "prompt_loop m (t + 1) ?s = (b1, s1, evs1)"
      by (cases "prompt_loop m (t + 1) ?s") auto
    with again "1.prems" have res: "b = b1" "s' = s1"
      "evs = ReadText (s 0) # ReadText (s (Suc 0)) # Sleep 500 # evs1"
      by (simp_all add: prompt_loop.simps [of m t s])
    from again have "\<not> str_in ''>>>'' (element_text s)" "\<not> m < t + 1" by simp_all
    from "1.IH" [OF this rec] have ih:
      "\<forall>e\<in>set evs1. is_read e \<or> is_sleep e \<or> is_print e" "evs1 \<noteq> []"
      "\<not> b1 \<longrightarrow> (\<exists>msg. is_failure msg \<and> last evs1 = Print msg)"
      "\<forall>j. \<exists>i. s1 j = ?s i"
      by blast+
    from ih(4) have "\<forall>j. \<exists>i. s1 j = s i" by (metis advance_apply)
    with ih(1-3) res show ?thesis by simp
  qed
qed

lemma loop_event_kind:
  assumes "is_read e \<or> is_sleep e \<or> is_print e"
  shows "stage_event e" "\<not> is_key_write e" "e \<noteq> BrowserClose"
  using assms by (cases e; simp)+

lemma wait_for_welcome_message_events:
  assumes "wait_for_welcome_message s iv m = (b, s', evs)"
  shows "\<forall>e\<in>set evs. stage_event e \<and> \<not> is_key_write e" "evs \<noteq> []"
    "\<not> b \<longrightarrow> (\<exists>msg. is_failure msg \<and> last evs = Print msg)"
    "\<forall>j. \<exists>i. s' j = s i"
  using welcome_loop_events [of iv m 0 s b s' evs] assms loop_event_kind
  unfolding wait_for_welcome_message_def by blast+

lemma enter_password_events:
  assumes "enter_password s password iv m = (b, s', evs)"
  shows "\<forall>e\<in>set evs. stage_event e" "evs \<noteq> []"
    "\<not> b \<longrightarrow> (\<exists>msg. is_failure msg \<and> last evs = Print msg)"
    "(\<exists>e\<in>set evs. is_key_write e) \<longrightarrow>
       (\<exists>pre t post. evs = pre @ ReadText t # KeyWrite password # post \<and>
          str_in ''Password'' t \<and> (\<exists>i. t = s i) \<and> (\<forall>e\<in>set pre. \<not> is_key_write e))"
proof -
  obtain b1 s1 evs1 where loop: "password_loop iv m 0 s = (b1, s1, evs1)"
    by (cases "password_loop iv m 0 s") auto
  note ev = password_loop_events [OF loop]
  from ev have kinds: "\<forall>e\<in>set evs1. stage_event e \<and> \<not> is_key_write e"
    using loop_event_kind by blast
  show "\<forall>e\<in>set evs. stage_event e" "evs \<noteq> []"
    "\<not> b \<longrightarrow> (\<exists>msg. is_failure msg \<and> last evs = Print msg)"
    using assms loop ev kinds
    by (auto simp: enter_password_def split: if_splits bool.splits)
  show "(\<exists>e\<in>set evs. is_key_write e) \<longrightarrow>
       (\<exists>pre t post. evs = pre @ ReadText t # KeyWrite password # post \<and>
          str_in ''Password'' t \<and> (\<exists>i. t = s i) \<and> (\<forall>e\<in>set pre. \<not> is_key_write e))"
  proof (cases b1)
    case False
    with assms loop have "evs = evs1" by (simp add: enter_password_def)
    with kinds show ?thesis by blast
  next
    case True
    with ev obtain i where i: "last evs1 = ReadText (s i)" "str_in ''Password'' (s i)" "evs1 \<noteq> []"
      by blast
    then have split: "evs1 = butlast evs1 @ [ReadText (s i)]"
      by (metis append_butlast_last_id)
    from True assms loop obtain post where
      "evs = evs1 @ KeyWrite password # post"
      by (auto simp: enter_password_def split: if_splits)
    with split have "evs = butlast evs1 @ ReadText (s i) # KeyWrite password # post"
      by (metis append.assoc append_Cons append_Nil)
    moreover have "\<forall>e\<in>set (butlast evs1). \<not> is_key_write e"
      using kinds by (meson in_set_butlastD)
    ultimately show ?thesis using i(2) by blast
  qed
qed

lemma wait_for_repl_prompt_events:
  assumes "wait_for_repl_prompt s m = (b, s', evs)"
  shows "\<forall>e\<in>set evs. stage_event e \<and> \<not> is_key_write e" "evs \<noteq> []"
    "\<not> b \<longrightarrow> (\<exists>msg. is_failure msg \<and> last evs = Print msg)"
    "b \<longrightarrow> last evs = KeyPress ''ctrl+b''"
proof -
  obtain b1 s1 evs1 where loop: "prompt_loop m 0 (advance s) = (b1, s1, evs1)"
    by (cases "prompt_loop m 0 (advance s)") auto
  note ev = prompt_loop_events [OF loop]
  from ev have kinds: "\<forall>e\<in>set evs1. stage_event e \<and> \<not> is_key_write e"
    using loop_event_kind by blast
  show "\<forall>e\<in>set evs. stage_event e \<and> \<not> is_key_write e" "evs \<noteq> []"
    "\<not> b \<longrightarrow> (\<exists>msg. is_failure msg \<and> last evs = Print msg)"
    "b \<longrightarrow> last evs = KeyPress ''ctrl+b''"
    using assms loop ev kinds
    by (auto simp: wait_for_repl_prompt_def split: if_splits bool.splits)
qed

lemma never_password_no_keys:
  assumes "\<forall>i. \<not> str_in ''Password'' (s i)" and "enter_password s password iv m = (b, s', evs)"
  shows "\<not> b" "\<forall>e\<in>set evs. \<not> is_key_write e"
proof -
  from enter_password_events(4) [OF assms(2)] assms(1)
  show keys: "\<forall>e\<in>set evs. \<not> is_key_write e" by blast
  show "\<not> b"
  proof
    assume b
    obtain b1 s1 evs1 where loop: "password_loop iv m 0 s = (b1, s1, evs1)"
      by (cases "password_loop iv m 0 s") auto
    with \<open>b\<close> assms(2) have "b1" by (cases b1) (auto simp: enter_password_def)
    with password_loop_events [OF loop] assms(1) show False by blast
  qed
qed

lemma start_session_events: "\<forall>e\<in>set (start_session url). e \<noteq> BrowserClose \<and> \<not> is_key_write e"
  by (simp add: start_session_def)

lemma stage_event_not_close: "stage_event e \<Longrightarrow> e \<noteq> BrowserClose"
  by (cases e) simp_all

text \<open>
  Claim C9. Once the page file is found, the launcher returns the browser exactly when
  the three stages succeed, and \<open>None\<close> otherwise. When it returns \<open>None\<close>, closing the
  browser is its last effect, it happens once, and it comes right after the failure
  message of the stage. When it returns the browser, the browser is never closed and the
  last effect is the control-B key press.
\<close>

theorem launcher_closes_browser_unless_ready:
  assumes "start_webrepl_with_selenium True s url password = (r, evs)"
  shows "(r = ReturnNone \<or> r = ReturnBrowser) \<and>
         (r = ReturnBrowser \<longleftrightarrow>
            (\<exists>s1 e1 s2 e2 s3 e3.
               wait_for_welcome_message s 500 10 = (True, s1, e1) \<and>
               enter_password s1 password 500 10 = (True, s2, e2) \<and>
               wait_for_repl_prompt s2 10 = (True, s3, e3))) \<and>
         (r = ReturnNone \<longrightarrow>
            last evs = BrowserClose \<and> BrowserClose \<notin> set (butlast evs) \<and>
            (\<exists>msg. is_failure msg \<and> last (butlast evs) = Print msg)) \<and>
         (r = ReturnBrowser \<longrightarrow>
            BrowserClose \<notin> set evs \<and> last evs = KeyPress ''ctrl+b'') \<and>
         hd evs = BrowserOpen"
proof -
  obtain b1 s1 e1 where w: "wait_for_welcome_message s 500 10 = (b1, s1, e1)"
    by (cases "wait_for_welcome_message s 500 10") auto
  note we = wait_for_welcome_message_events [OF w]
  from we(1) have c1: "BrowserClose \<notin> set e1" using stage_event_not_close by blast
  have c0: "BrowserClose \<notin> set (start_session url)" by (simp add: start_session_def)
  show ?thesis
  proof (cases b1)
    case False
    with assms w have res: "r = ReturnNone"
      "evs = BrowserOpen # start_session url @ e1 @ [BrowserClose]"
      by (simp_all add: start_webrepl_with_selenium_def)
    have "butlast evs = BrowserOpen # start_session url @ e1"
      unfolding res(2) by (simp add: butlast_append)
    then show ?thesis using res False w we(2,3) c0 c1 by simp
  next
    case True
    obtain b2 s2 e2 where p: "enter_password s1 password 500 10 = (b2, s2, e2)"
      by (cases "enter_password s1 password 500 10") auto
    note pe = enter_password_events [OF p]
    from pe(1) have c2: "BrowserClose \<notin> set e2" using stage_event_not_close by blast
    show ?thesis
    proof (cases b2)
      case False
      with True assms w p have res: "r = ReturnNone"
        "evs = BrowserOpen # start_session url @ e1 @ e2 @ [BrowserClose]"
        by (simp_all add: start_webrepl_with_selenium_def)
      have "butlast evs = BrowserOpen # start_session url @ e1 @ e2"
        unfolding res(2) by (simp add: butlast_append)
      then show ?thesis using res True False w p we(2) pe(2,3) c0 c1 c2 by simp
    next
      case b2: True
      obtain b3 s3 e3 where q: "wait_for_repl_prompt s2 10 = (b3, s3, e3)"
        by (cases "wait_for_repl_prompt s2 10") auto
      note qe = wait_for_repl_prompt_events [OF q]
      from qe(1) have c3: "BrowserClose \<notin> set e3" using stage_event_not_close by blast
      show ?thesis
      proof (cases b3)
        case False
        with True b2 assms w p q have res: "r = ReturnNone"
          "evs = BrowserOpen # start_session url @ e1 @ e2 @ e3 @ [BrowserClose]"
          by (simp_all add: start_webrepl_with_selenium_def)
        have "butlast evs = BrowserOpen # start_session url @ e1 @ e2 @ e3"
          unfolding res(2) by (simp add: butlast_append)
        then show ?thesis using res True b2 False w p q qe(2,3) c0 c1 c2 c3 by simp
      next
        case b3: True
        with True b2 assms w p q have res: "r = ReturnBrowser"
          "evs = BrowserOpen # start_session url @ e1 @ e2 @ e3"
          by (simp_all add: start_webrepl_with_selenium_def)
        then show ?thesis using True b2 b3 w p q qe(2,4) c0 c1 c2 c3 by simp
      qed
    qed
  qed
qed

text \<open>
  Claim C10. If a run of the launcher writes anything on the keyboard, then the page file
  was found, the welcome stage returned \<open>True\<close>, and in the password stage the password is
  written right after a read whose text contains \<open>Password\<close>, with no keyboard writing
  before it. A run on a surface that never shows \<open>Password\<close> writes nothing on the
  keyboard.
\<close>

theorem password_keys_only_after_prompt:
  assumes "start_webrepl_with_selenium html_found s url password = (r, evs)"
  shows "((\<exists>e\<in>set evs. is_key_write e) \<longrightarrow>
            html_found \<and>
            (\<exists>s1 e1 b s2 e2 pre t post.
               wait_for_welcome_message s 500 10 = (True, s1, e1) \<and>
               enter_password s1 password 500 10 = (b, s2, e2) \<and>
               e2 = pre @ ReadText t # KeyWrite password # post \<and>
               str_in ''Password'' t \<and> (\<forall>e\<in>set pre. \<not> is_key_write e))) \<and>
         ((\<forall>i. \<not> str_in ''Password'' (s i)) \<longrightarrow> \<not> (\<exists>e\<in>set evs. is_key_write e))"
proof (cases html_found)
  case False
  with assms have "evs = [Print HtmlFileNotFound, Print HtmlNotFound]"
    by (simp add: start_webrepl_with_selenium_def)
  with False show ?thesis by simp
next
  case found: True
  obtain b1 s1 e1 where w: "wait_for_welcome_message s 500 10 = (b1, s1, e1)"
    by (cases "wait_for_welcome_message s 500 10") auto
  note we = wait_for_welcome_message_events [OF w]
  note k0 = start_session_events [of url]
  show ?thesis
  proof (cases b1)
    case False
    with found assms w have "evs = BrowserOpen # start_session url @ e1 @ [BrowserClose]"
      by (simp add: start_webrepl_with_selenium_def)
    with we(1) k0 show ?thesis by auto
  next
    case True
    obtain b2 s2 e2 where p: "enter_password s1 password 500 10 = (b2, s2, e2)"
      by (cases "enter_password s1 password 500 10") auto
    note pe = enter_password_events [OF p]
    have nokeys_in_rest: "\<exists>e\<in>set evs. is_key_write e \<Longrightarrow> \<exists>e\<in>set e2. is_key_write e"
    proof (cases b2)
      case False
      with found True assms w p have "evs = BrowserOpen # start_session url @ e1 @ e2 @ [BrowserClose]"
        by (simp add: start_webrepl_with_selenium_def)
      moreover assume "\<exists>e\<in>set evs. is_key_write e"
      ultimately show ?thesis using we(1) k0 by auto
    next
      case b2: True
      obtain b3 s3 e3 where q: "wait_for_repl_prompt s2 10 = (b3, s3, e3)"
        by (cases "wait_for_repl_prompt s2 10") auto
      note qe = wait_for_repl_prompt_events [OF q]
      from found True b2 assms w p q have
        "evs = BrowserOpen # start_session url @ e1 @ e2 @ e3 @ [BrowserClose] \<or>
         evs = BrowserOpen # start_session url @ e1 @ e2 @ e3"
        by (cases b3) (simp_all add: start_webrepl_with_selenium_def)
      moreover assume "\<exists>e\<in>set evs. is_key_write e"
      ultimately show ?thesis using we(1) qe(1) k0 by auto
    qed
    have first: "(\<exists>e\<in>set evs. is_key_write e) \<longrightarrow>
            html_found \<and>
            (\<exists>s1 e1 b s2 e2 pre t post.
               wait_for_welcome_message s 500 10 = (True, s1, e1) \<and>
               enter_password s1 password 500 10 = (b, s2, e2) \<and>
               e2 = pre @ ReadText t # KeyWrite password # post \<and>
               str_in ''Password'' t \<and> (\<forall>e\<in>set pre. \<not> is_key_write e))"
    proof
      assume "\<exists>e\<in>set evs. is_key_write e"
      then have "\<exists>e\<in>set e2. is_key_write e" by (rule nokeys_in_rest)
      with pe(4) obtain pre t post where
        "e2 = pre @ ReadText t # KeyWrite password # post" "str_in ''Password'' t"
        "\<forall>e\<in>set pre. \<not> is_key_write e"
        by blast
      moreover from True w have "wait_for_welcome_message s 500 10 = (True, s1, e1)" by simp
      ultimately show "html_found \<and>
            (\<exists>s1 e1 b s2 e2 pre t post.
               wait_for_welcome_message s 500 10 = (True, s1, e1) \<and>
               enter_password s1 password 500 10 = (b, s2, e2) \<and>
               e2 = pre @ ReadText t # KeyWrite password # post \<and>
               str_in ''Password'' t \<and> (\<forall>e\<in>set pre. \<not> is_key_write e))"
        using found p by blast
    qed
    have second: "(\<forall>i. \<not> str_in ''Password'' (s i)) \<longrightarrow> \<not> (\<exists>e\<in>set evs. is_key_write e)"
    proof (intro impI notI)
      assume never: "\<forall>i. \<not> str_in ''Password'' (s i)" and "\<exists>e\<in>set evs. is_key_write e"
      then have keys: "\<exists>e\<in>set e2. is_key_write e" using nokeys_in_rest by blast
      from never we(4) have "\<forall>i. \<not> str_in ''Password'' (s1 i)" by metis
      from never_password_no_keys(2) [OF this p] keys show False by blast
    qed
    from first second show ?thesis by blast
  qed
qed

lemma refused_run:
  "start_webrepl_with_selenium True (const_surface ''Disconnected'') ''ws://192.168.1.5:8266/'' ''secret'' =
     (ReturnNone,
      [BrowserOpen, UrlClear, UrlSendKeys ''ws://192.168.1.5:8266/'', UrlSendReturn,
       ReadText ''Disconnected'', Sleep 500, ReadText ''Disconnected'', Print CouldNotConnect,
       BrowserClose])"
  by (simp add: start_webrepl_with_selenium_def start_session_def wait_for_welcome_message_def
      welcome_loop.simps const_surface_def)

lemma ready_run:
  "start_webrepl_with_selenium True
     (list_surface [''Welcome to MicroPython!'', ''Password: '', ''WebREPL connected'',
                    ''WebREPL connected'', ''>>> ''] [])
     ''ws://192.168.1.5:8266/'' ''secret'' =
     (ReturnBrowser,
      [BrowserOpen, UrlClear, UrlSendKeys ''ws://192.168.1.5:8266/'', UrlSendReturn,
       ReadText ''Welcome to MicroPython!'', Print WelcomeFound,
       ReadText ''Password: '', KeyWrite ''secret'', KeyWrite [CHR 0x0A], Sleep 500,
       ReadText ''WebREPL connected'', Print PasswordAccepted,
       ReadText ''WebREPL connected'', ReadText ''>>> '', Print PromptFound,
       KeyPress ''ctrl+b''])"
  by (simp add: start_webrepl_with_selenium_def start_session_def wait_for_welcome_message_def
      welcome_loop.simps enter_password_def password_loop.simps wait_for_repl_prompt_def
      prompt_loop.simps list_surface_def)

theorem launcher_closes_browser_unless_ready_witness:
  "start_webrepl_with_selenium True (const_surface ''Disconnected'') ''ws://192.168.1.5:8266/'' ''secret'' =
     (ReturnNone,
      [BrowserOpen, UrlClear, UrlSendKeys ''ws://192.168.1.5:8266/'', UrlSendReturn,
       ReadText ''Disconnected'', Sleep 500, ReadText ''Disconnected'', Print CouldNotConnect,
       BrowserClose]) \<and>
   last [BrowserOpen, UrlClear, UrlSendKeys ''ws://192.168.1.5:8266/'', UrlSendReturn,
       ReadText ''Disconnected'', Sleep 500, ReadText ''Disconnected'', Print CouldNotConnect,
       BrowserClose] = BrowserClose \<and>
   fst (start_webrepl_with_selenium True
     (list_surface [''Welcome to MicroPython!'', ''Password: '', ''WebREPL connected'',
                    ''WebREPL connected'', ''>>> ''] [])
     ''ws://192.168.1.5:8266/'' ''secret'') = ReturnBrowser \<and>
   BrowserClose \<notin> set (snd (start_webrepl_with_selenium True
     (list_surface [''Welcome to MicroPython!'', ''Password: '', ''WebREPL connected'',
                    ''WebREPL connected'', ''>>> ''] [])
     ''ws://192.168.1.5:8266/'' ''secret''))"
  using launcher_closes_browser_unless_ready [OF refused_run]
    launcher_closes_browser_unless_ready [OF ready_run] refused_run
  by (simp add: ready_run)

theorem password_keys_only_after_prompt_witness:
  "(\<exists>e\<in>set (snd (start_webrepl_with_selenium True
       (list_surface [''Welcome to MicroPython!'', ''Password: '', ''WebREPL connected'',
                      ''WebREPL connected'', ''>>> ''] [])
       ''ws://192.168.1.5:8266/'' ''secret'')). is_key_write e) \<and>
   (\<exists>s1 e1 b s2 e2 pre t post.
      wait_for_welcome_message
        (list_surface [''Welcome to MicroPython!'', ''Password: '', ''WebREPL connected'',
                       ''WebREPL connected'', ''>>> ''] []) 500 10 = (True, s1, e1) \<and>
      enter_password s1 ''secret'' 500 10 = (b, s2, e2) \<and>
      e2 = pre @ ReadText t # KeyWrite ''secret'' # post \<and> str_in ''Password'' t) \<and>
   (\<forall>i. \<not> str_in ''Password'' (const_surface ''Disconnected'' i)) \<and>
   \<not> (\<exists>e\<in>set (snd (start_webrepl_with_selenium True (const_surface ''Disconnected'')
       ''ws://192.168.1.5:8266/'' ''secret'')). is_key_write e)"
proof -
  have keys: "\<exists>e\<in>set (snd (start_webrepl_with_selenium True
       (list_surface [''Welcome to MicroPython!'', ''Password: '', ''WebREPL connected'',
                      ''WebREPL connected'', ''>>> ''] [])
       ''ws://192.168.1.5:8266/'' ''secret'')). is_key_write e"
    by (simp add: ready_run)
  have never: "\<forall>i. \<not> str_in ''Password'' (const_surface ''Disconnected'' i)"
    by (simp add: const_surface_def)
  from password_keys_only_after_prompt [OF ready_run] keys
  have a: "\<exists>s1 e1 b s2 e2 pre t post.
      wait_for_welcome_message
        (list_surface [''Welcome to MicroPython!'', ''Password: '', ''WebREPL connected'',
                       ''WebREPL connected'', ''>>> ''] []) 500 10 = (True, s1, e1) \<and>
      enter_password s1 ''secret'' 500 10 = (b, s2, e2) \<and>
      e2 = pre @ ReadText t # KeyWrite ''secret'' # post \<and> str_in ''Password'' t"
    unfolding ready_run snd_conv by blast
  from password_keys_only_after_prompt [OF refused_run] never
  have b: "\<not> (\<exists>e\<in>set (snd (start_webrepl_with_selenium True (const_surface ''Disconnected'')
       ''ws://192.168.1.5:8266/'' ''secret'')). is_key_write e)"
    unfolding refused_run snd_conv by blast
  from keys a never b show ?thesis by blast
qed

section \<open>Facts and claims about the client page\<close>
















lemma newline_not_cr [simp]: "newline \<noteq> carriage_return" "carriage_return \<noteq> newline"
  by (simp_all add: newline_def carriage_return_def)




lemma write_newlines_simps [simp]:
  "write_newlines p [] = []"
  "write_newlines p (c # cs) = (if c = newline then os_linesep p else [c]) @ write_newlines p cs"
  "write_newlines p (a @ b) = write_newlines p a @ write_newlines p b"
  by (simp_all add: write_newlines_def)
















end
